theory Spec2Isabelle
  imports Main
begin

section \<open>Dining philosophers: event log, forks, actors, conductor and trace analyzer\<close>

text \<open>
  A shallow embedding of \<^verbatim>\<open>philosophers.js\<close> and of the helper \<^verbatim>\<open>analyzeLog\<close> of
  \<^verbatim>\<open>philosophers.test.js\<close>.

  Conventions of the embedding.
  \<^item> Actor identities, fork indices and the actor count are naturals; JavaScript arithmetic
    that leaves the naturals (\<^verbatim>\<open>phil - 1 + n\<close>, \<^verbatim>\<open>%\<close> by zero) is written out over \<open>int\<close>.
  \<^item> The module-level variables \<^verbatim>\<open>eventLog\<close>, \<^verbatim>\<open>startTime\<close>, \<^verbatim>\<open>currentAlgorithm\<close> and
    \<^verbatim>\<open>currentRunId\<close> are the fields of the record \<open>logger\<close>, passed explicitly; the lines
    written by \<^verbatim>\<open>console.log\<close> are kept in the field \<open>console\<close>.
  \<^item> \<^verbatim>\<open>Date.now()\<close> reads a clock that is part of the module state, one reading per
    call; the identifier made by \<^verbatim>\<open>generateShortId()\<close> is an argument (\<open>rnd\<close>) of the one
    function that calls it.
  \<^item> \<^verbatim>\<open>null\<close> is \<open>None\<close>; a thrown \<^verbatim>\<open>Error\<close> is a value, returned next to the state the
    call leaves behind.
  \<^item> The scheduler is single threaded and cooperative: code between two \<^verbatim>\<open>await\<close>s runs as
    one step. What the other tasks do while a task is suspended is an explicit argument.
\<close>

subsection \<open>Rendering numbers in template strings\<close>

text \<open>
  A template string renders a natural number in decimal, and a negative integer with a
  leading minus sign. (JavaScript changes to the exponent notation from \<open>10\<^sup>2\<^sup>1\<close> on;
  the identities of actors and forks are far below.)
\<close>

definition digit :: "nat \<Rightarrow> char" where
  "digit d = ''0123456789'' ! d"

fun decimal :: "nat \<Rightarrow> string \<Rightarrow> string" where
  "decimal n acc =
     (if n < 10 then digit n # acc else decimal (n div 10) (digit (n mod 10) # acc))"

declare decimal.simps [simp del]

definition string_of_nat :: "nat \<Rightarrow> string" where
  "string_of_nat n = decimal n []"

definition string_of_int :: "int \<Rightarrow> string" where
  "string_of_int z =
     (if 0 \<le> z then string_of_nat (nat z) else CHR ''-'' # string_of_nat (nat (- z)))"

text \<open>The holder of a fork is an actor identity or \<^verbatim>\<open>null\<close>.\<close>

definition string_of_holder :: "nat option \<Rightarrow> string" where
  "string_of_holder h = (case h of None \<Rightarrow> ''null'' | Some i \<Rightarrow> string_of_nat i)"

subsection \<open>The event log\<close>

record entry =
  runId :: "string option"
  algorithm :: string
  t :: int
  phil :: nat
  event :: string
  forks :: "nat list"

text \<open>
  The module state. \<open>clock\<close> and \<open>ticks\<close> stand for the system clock: the \<open>k\<close>-th call
  of \<^verbatim>\<open>Date.now()\<close> returns \<open>clock k\<close>, and \<open>ticks\<close> counts the calls made so far.
\<close>

record logger =
  eventLog :: "entry list"
  startTime :: int
  currentAlgorithm :: string
  currentRunId :: "string option"
  console :: "entry list"
  clock :: "nat \<Rightarrow> int"
  ticks :: nat

definition date_now :: "logger \<Rightarrow> int \<times> logger" where
  "date_now L = (clock L (ticks L), L\<lparr>ticks := Suc (ticks L)\<rparr>)"

text \<open>The state of the module once loaded, on a clock \<open>clk\<close>.\<close>

definition initial_logger :: "(nat \<Rightarrow> int) \<Rightarrow> logger" where
  "initial_logger clk =
     \<lparr>eventLog = [], startTime = clk 0, currentAlgorithm = ''unknown'',
      currentRunId = None, console = [], clock = clk, ticks = 1\<rparr>"

definition setAlgorithm :: "string \<Rightarrow> logger \<Rightarrow> logger" where
  "setAlgorithm name L = L\<lparr>currentAlgorithm := name\<rparr>"

text \<open>
  \<^verbatim>\<open>startRun(algorithm)\<close>: the argument is a string or missing (\<open>None\<close>); the falsy values
  among these are the missing argument and the empty string. \<open>rnd\<close> is the identifier
  produced by \<^verbatim>\<open>generateShortId()\<close>.
\<close>

definition falsy :: "string option \<Rightarrow> bool" where
  "falsy a = (a = None \<or> a = Some [])"

definition startRun :: "string option \<Rightarrow> string \<Rightarrow> logger \<Rightarrow> string \<times> logger" where
  "startRun alg rnd L =
     (let L1 = L\<lparr>currentAlgorithm := (if falsy alg then currentAlgorithm L else the alg)\<rparr>;
          L2 = L1\<lparr>currentRunId := Some rnd\<rparr>;
          (now, L3) = date_now L2
      in (rnd, L3\<lparr>startTime := now\<rparr>))"

definition log :: "nat \<Rightarrow> string \<Rightarrow> nat list \<Rightarrow> logger \<Rightarrow> logger" where
  "log philId ev fks L =
     (let (now, L1) = date_now L;
          e = \<lparr>runId = currentRunId L1, algorithm = currentAlgorithm L1,
               t = now - startTime L1, phil = philId, event = ev, forks = fks\<rparr>
      in L1\<lparr>eventLog := eventLog L1 @ [e], console := console L1 @ [e]\<rparr>)"

definition getEventLog :: "logger \<Rightarrow> entry list" where
  "getEventLog L = eventLog L"

definition clearEventLog :: "logger \<Rightarrow> logger" where
  "clearEventLog L = L\<lparr>eventLog := []\<rparr>"

text \<open>The calls of the run lifecycle that may follow a \<^verbatim>\<open>startRun\<close>.\<close>

datatype call = Log nat string "nat list" | ClearEventLog

fun perform :: "logger \<Rightarrow> call \<Rightarrow> logger" where
  "perform L (Log philId ev fks) = log philId ev fks L"
| "perform L ClearEventLog = clearEventLog L"

text \<open>
  The calls that may follow a \<^verbatim>\<open>startRun\<close> when the exported setter \<^verbatim>\<open>setAlgorithm\<close> is
  counted in, and the label that is current after such calls: the name given to the last
  \<^verbatim>\<open>setAlgorithm\<close> among them, and the label before them when there is none.
\<close>

datatype module_call = Call call | SetAlgorithm string

fun perform_any :: "logger \<Rightarrow> module_call \<Rightarrow> logger" where
  "perform_any L (Call c) = perform L c"
| "perform_any L (SetAlgorithm name) = setAlgorithm name L"

fun current_label :: "string \<Rightarrow> module_call list \<Rightarrow> string" where
  "current_label lbl [] = lbl"
| "current_label lbl (Call c # calls) = current_label lbl calls"
| "current_label lbl (SetAlgorithm name # calls) = current_label name calls"

text \<open>
  What a call does that others can see, in order: the record a \<^verbatim>\<open>log\<close> call appends, and
  the delay asked of \<^verbatim>\<open>delay\<close>. \<open>logged\<close> is the record that \<^verbatim>\<open>log\<close> appends in a state.
\<close>

datatype action = Logged entry | Waited nat

definition logged :: "nat \<Rightarrow> string \<Rightarrow> nat list \<Rightarrow> logger \<Rightarrow> entry" where
  "logged philId ev fks L = last (eventLog (log philId ev fks L))"

fun events_of :: "action list \<Rightarrow> entry list" where
  "events_of [] = []"
| "events_of (Logged e # as) = e # events_of as"
| "events_of (Waited d # as) = events_of as"

fun waits_of :: "action list \<Rightarrow> nat list" where
  "waits_of [] = []"
| "waits_of (Logged e # as) = waits_of as"
| "waits_of (Waited d # as) = d # waits_of as"

subsection \<open>Forks\<close>

record fork =
  id_fork :: nat
  state :: nat
  holder :: "nat option"

definition Fork :: "nat \<Rightarrow> fork" where
  "Fork i = \<lparr>id_fork = i, state = 0, holder = None\<rparr>"

text \<open>
  The errors thrown: \<^verbatim>\<open>new Error(message)\<close>, and the \<^verbatim>\<open>TypeError\<close> of the runtime for a
  method call on \<^verbatim>\<open>undefined\<close>.
\<close>

datatype js_error = Error string | TypeError

datatype completion = Returned | Thrown js_error

text \<open>
  \<^verbatim>\<open>release\<close> throws before it touches anything, so the state next to \<open>Thrown\<close> is the
  state it was called in.
\<close>

definition release :: "nat \<Rightarrow> nat list \<Rightarrow> fork \<times> logger \<Rightarrow> completion \<times> fork \<times> logger" where
  "release requesterId fks w =
     (case w of (f, L) \<Rightarrow>
        if holder f \<noteq> Some requesterId
        then (Thrown (Error (''Philosopher '' @ string_of_nat requesterId @
                             '' cannot release fork held by '' @ string_of_holder (holder f))),
              f, L)
        else (Returned, f\<lparr>state := 0, holder := None\<rparr>, log requesterId ''RELEASE'' fks L))"

text \<open>
  \<^verbatim>\<open>acquire\<close> logs TRY and enters its loop with \<^verbatim>\<open>waitTime = 1\<close>. Each pass of the loop
  checks the fork; a free fork is taken and the call returns, a held fork makes the task
  wait \<^verbatim>\<open>delay(waitTime)\<close> and then double \<^verbatim>\<open>waitTime\<close> up to \<^verbatim>\<open>maxWait = 1000\<close>. The
  list \<open>env\<close> holds, for each wait, what the other tasks do to the fork and to the module
  state in the meantime: the call goes on in the state they make of the state it left.
  The result is what the call did, in order, and the state the call returned in, or
  \<open>None\<close> when the task is still suspended at the end of \<open>env\<close>.
\<close>

fun acquire_loop ::
  "nat \<Rightarrow> nat list \<Rightarrow> nat \<Rightarrow> fork \<times> logger \<Rightarrow> (fork \<times> logger \<Rightarrow> fork \<times> logger) list
     \<Rightarrow> action list \<times> (fork \<times> logger) option" where
  "acquire_loop requesterId fks waitTime (f, L) env =
     (if state f = 0
      then ([Logged (logged requesterId ''ACQUIRE'' fks L)],
            Some (f\<lparr>state := 1, holder := Some requesterId\<rparr>,
                  log requesterId ''ACQUIRE'' fks L))
      else (case env of
              [] \<Rightarrow> ([Waited waitTime], None)
            | g # env' \<Rightarrow>
                (case acquire_loop requesterId fks (min (waitTime * 2) 1000) (g (f, L)) env' of
                   (tr, res) \<Rightarrow> (Waited waitTime # tr, res))))"

declare acquire_loop.simps [simp del]

definition acquire ::
  "nat \<Rightarrow> nat list \<Rightarrow> fork \<times> logger \<Rightarrow> (fork \<times> logger \<Rightarrow> fork \<times> logger) list
     \<Rightarrow> action list \<times> (fork \<times> logger) option" where
  "acquire requesterId fks w env =
     (case w of (f, L) \<Rightarrow>
        (case acquire_loop requesterId fks 1 (f, log requesterId ''TRY'' fks L) env of
           (tr, res) \<Rightarrow> (Logged (logged requesterId ''TRY'' fks L) # tr, res)))"

text \<open>
  The states a call finds at its successive checks for as long as it keeps waiting: the
  state of the first check, and after each wait the state the other tasks make of the
  one before.
\<close>

fun checks :: "'a \<Rightarrow> ('a \<Rightarrow> 'a) list \<Rightarrow> 'a list" where
  "checks w [] = [w]"
| "checks w (g # env) = w # checks (g w) env"

text \<open>The invariant of the data model: the fork is held exactly when it has a holder.\<close>

definition fork_inv :: "fork \<Rightarrow> bool" where
  "fork_inv f = ((state f = 1) = (holder f \<noteq> None))"

subsection \<open>Philosophers\<close>

text \<open>
  The forks of the table are the array \<open>fs\<close>; an actor keeps its identity and the indices
  of its two forks. \<^verbatim>\<open>id % forks.length\<close> is \<^verbatim>\<open>NaN\<close> on an empty array: there the
  constructor has no value in the model.
\<close>

record philosopher =
  id_phil :: nat
  f1 :: nat
  f2 :: nat

definition Philosopher :: "nat \<Rightarrow> fork list \<Rightarrow> philosopher option" where
  "Philosopher i fs =
     (if length fs = 0 then None
      else Some \<lparr>id_phil = i, f1 = i mod length fs, f2 = (i + 1) mod length fs\<rparr>)"

definition log_phil :: "philosopher \<Rightarrow> string \<Rightarrow> logger \<Rightarrow> logger" where
  "log_phil p ev L = log (id_phil p) ev [f1 p, f2 p] L"

text \<open>
  The table as \<^verbatim>\<open>main\<close>, the experiment runner and the tests build it:
  \<^verbatim>\<open>Array.from({ length: n }, (_, i) => new Fork(i))\<close>, and one actor for each index.
\<close>

definition make_forks :: "nat \<Rightarrow> fork list" where
  "make_forks n = map Fork [0..<n]"

definition make_philosophers :: "nat \<Rightarrow> philosopher option list" where
  "make_philosophers n = map (\<lambda>i. Philosopher i (make_forks n)) [0..<n]"

text \<open>
  The state of the promise an \<^verbatim>\<open>async\<close> function returns, at the end of what is observed.
\<close>

datatype promise = Fulfilled | Pending | Rejected js_error

text \<open>
  A step of a task that ends at an \<^verbatim>\<open>await\<close> or at the end of the function. The task
  works on the table, the array of forks and the logger. \<open>Next evs w env\<close>: the task was
  resumed and goes on in the state \<open>w\<close> that the other tasks left, with \<open>env\<close> the states
  of the later resumptions. \<open>Halt pr evs w\<close>: the task got no further, \<open>pr\<close> is the state
  of its promise and \<open>w\<close> the state it left. In both, \<open>evs\<close> are the events the task
  logged in this step.
\<close>

datatype step =
  Next "entry list" "fork list \<times> logger" "(fork list \<times> logger) list"
| Halt promise "entry list" "fork list \<times> logger"

definition suspend ::
  "entry list \<Rightarrow> fork list \<times> logger \<Rightarrow> (fork list \<times> logger) list \<Rightarrow> step" where
  "suspend evs w env = (case env of [] \<Rightarrow> Halt Pending evs w | w' # env' \<Rightarrow> Next evs w' env')"

text \<open>
  \<^verbatim>\<open>await forks[i].acquire(r, fks)\<close>: the call of \<^verbatim>\<open>acquire\<close> on the fork at index \<open>i\<close>,
  and then the \<^verbatim>\<open>await\<close> of the caller, resumed in a later turn of the scheduler. Here
  \<open>env\<close> lists the states of the table found at the resumptions, whatever the state left:
  the call sees of each its own fork and the logger.
\<close>

definition acquire_at ::
  "nat \<Rightarrow> nat \<Rightarrow> nat list \<Rightarrow> fork list \<times> logger \<Rightarrow> (fork list \<times> logger) list \<Rightarrow> step" where
  "acquire_at i r fks w env =
     (case w of (fs, L) \<Rightarrow>
        if length fs \<le> i then Halt (Rejected TypeError) [] w
        else (case acquire r fks (fs ! i, L) (map (\<lambda>(gs, M). (\<lambda>_. (gs ! i, M))) env) of
                (tr, None) \<Rightarrow>
                  Halt Pending (events_of tr) (last ((fs, log r ''TRY'' fks L) # env))
              | (tr, Some (f', L')) \<Rightarrow>
                  suspend (events_of tr)
                    ((fst (((fs, L) # env) ! length (waits_of tr)))[i := f'], L')
                    (drop (length (waits_of tr)) env)))"

definition release_at ::
  "nat \<Rightarrow> nat \<Rightarrow> nat list \<Rightarrow> fork list \<times> logger \<Rightarrow> completion \<times> fork list \<times> logger" where
  "release_at i r fks w =
     (case w of (fs, L) \<Rightarrow>
        if length fs \<le> i then (Thrown TypeError, w)
        else (case release r fks (fs ! i, L) of (c, f', L') \<Rightarrow> (c, fs[i := f'], L')))"

text \<open>
  \<^verbatim>\<open>startNaive(count)\<close>: the loop runs \<open>count\<close> times; the recursion is on the number of
  iterations left. The result is the promise, the events the call logged, in order, and
  the state the task left.
\<close>

fun startNaive ::
  "philosopher \<Rightarrow> nat \<Rightarrow> fork list \<times> logger \<Rightarrow> (fork list \<times> logger) list
     \<Rightarrow> promise \<times> entry list \<times> fork list \<times> logger" where
  "startNaive p 0 w env = (Fulfilled, [], w)"
| "startNaive p (Suc m) w env =
     (case acquire_at (f1 p) (id_phil p) [f1 p, f2 p] w env of
        Halt pr evs1 w' \<Rightarrow> (pr, evs1, w')
      | Next evs1 w1 env1 \<Rightarrow>
     (case acquire_at (f2 p) (id_phil p) [f1 p, f2 p] w1 env1 of
        Halt pr evs2 w' \<Rightarrow> (pr, evs1 @ evs2, w')
      | Next evs2 w2 env2 \<Rightarrow>
     (case suspend [logged (id_phil p) ''EAT_START'' [f1 p, f2 p] (snd w2)]
             (fst w2, log_phil p ''EAT_START'' (snd w2)) env2 of
        Halt pr evs3 w' \<Rightarrow> (pr, evs1 @ evs2 @ evs3, w')
      | Next evs3 w3 env3 \<Rightarrow>
     (let evs4 = evs1 @ evs2 @ evs3 @ [logged (id_phil p) ''EAT_END'' [f1 p, f2 p] (snd w3)];
          w4 = (fst w3, log_phil p ''EAT_END'' (snd w3))
      in case release_at (f1 p) (id_phil p) [f1 p, f2 p] w4 of
           (Thrown e, w') \<Rightarrow> (Rejected e, evs4, w')
         | (Returned, w5) \<Rightarrow>
     (let evs5 = evs4 @ [logged (id_phil p) ''RELEASE'' [f1 p, f2 p] (snd w4)]
      in case release_at (f2 p) (id_phil p) [f1 p, f2 p] w5 of
           (Thrown e, w') \<Rightarrow> (Rejected e, evs5, w')
         | (Returned, w6) \<Rightarrow>
     (let evs6 = evs5 @ [logged (id_phil p) ''RELEASE'' [f1 p, f2 p] (snd w5)]
      in case startNaive p m w6 env3 of
           (pr, evs, w') \<Rightarrow> (pr, evs6 @ evs, w')))))))"

text \<open>One turn of the loop of \<^verbatim>\<open>startNaive\<close>, as the kinds of the events it logs.\<close>

definition cycle :: "string list" where
  "cycle = [''TRY'', ''ACQUIRE'', ''TRY'', ''ACQUIRE'', ''EAT_START'', ''EAT_END'',
            ''RELEASE'', ''RELEASE'']"

text \<open>
  The bodies of \<^verbatim>\<open>startAsym\<close>, \<^verbatim>\<open>startConductor\<close> and \<^verbatim>\<open>startSimultaneous\<close> bind three
  constants and end, and so do \<^verbatim>\<open>requestSeat\<close> and \<^verbatim>\<open>leaveSeat\<close> with nothing in them:
  the promise is fulfilled at once and nothing is changed.
\<close>

record 'a conductor =
  seats :: nat
  waiting :: "'a list"

definition Conductor :: "nat \<Rightarrow> 'a conductor" where
  "Conductor maxSeats = \<lparr>seats = maxSeats, waiting = []\<rparr>"

definition requestSeat :: "'a conductor \<Rightarrow> promise \<times> 'a conductor" where
  "requestSeat c = (Fulfilled, c)"

definition leaveSeat :: "'a conductor \<Rightarrow> 'a conductor" where
  "leaveSeat c = c"

definition startAsym ::
  "philosopher \<Rightarrow> nat \<Rightarrow> fork list \<times> logger \<Rightarrow> promise \<times> fork list \<times> logger" where
  "startAsym p count w = (Fulfilled, w)"

definition startConductor ::
  "philosopher \<Rightarrow> nat \<Rightarrow> 'a conductor \<Rightarrow> fork list \<times> logger
     \<Rightarrow> promise \<times> 'a conductor \<times> fork list \<times> logger" where
  "startConductor p count c w = (Fulfilled, c, w)"

definition startSimultaneous ::
  "philosopher \<Rightarrow> nat \<Rightarrow> fork list \<times> logger \<Rightarrow> promise \<times> fork list \<times> logger" where
  "startSimultaneous p count w = (Fulfilled, w)"

subsection \<open>The trace analyzer\<close>

text \<open>
  The cells of \<^verbatim>\<open>mealsPerPhilosopher\<close>: a count, \<^verbatim>\<open>NaN\<close>, or a hole of the array (read
  as \<^verbatim>\<open>undefined\<close>). \<^verbatim>\<open>x++\<close> on a count adds one; on anything else it stores \<^verbatim>\<open>NaN\<close>.
  Writing past the end extends the array and leaves holes.
\<close>

datatype jsnum = Num nat | NaN | Undefined

definition incr :: "jsnum \<Rightarrow> jsnum" where
  "incr x = (case x of Num k \<Rightarrow> Num (k + 1) | NaN \<Rightarrow> NaN | Undefined \<Rightarrow> NaN)"

definition increment_at :: "jsnum list \<Rightarrow> nat \<Rightarrow> jsnum list" where
  "increment_at xs i =
     (if i < length xs then xs[i := incr (xs ! i)]
      else xs @ replicate (i - length xs) Undefined @ [NaN])"

text \<open>
  \<^verbatim>\<open>a % b\<close> on integers: the sign follows \<open>a\<close>, and \<^verbatim>\<open>NaN\<close> (\<open>None\<close>) for \<open>b = 0\<close>.
  \<^verbatim>\<open>Set.has\<close> finds no \<^verbatim>\<open>NaN\<close> and no negative number among the identities.
\<close>

definition js_rem :: "int \<Rightarrow> int \<Rightarrow> int option" where
  "js_rem a b = (if b = 0 then None else Some (sgn a * (\<bar>a\<bar> mod \<bar>b\<bar>)))"

definition has :: "nat set \<Rightarrow> int option \<Rightarrow> bool" where
  "has S v = (case v of None \<Rightarrow> False | Some z \<Rightarrow> 0 \<le> z \<and> nat z \<in> S)"

definition string_of_num :: "int option \<Rightarrow> string" where
  "string_of_num v = (case v of None \<Rightarrow> ''NaN'' | Some z \<Rightarrow> string_of_int z)"

record issue =
  index :: nat
  error :: string

record results =
  mealsPerPhilosopher :: "jsnum list"
  sequenceErrors :: "issue list"
  mutualExclusionViolations :: "issue list"
  currentlyEating :: "nat set"

text \<open>The body of the loop of \<^verbatim>\<open>analyzeLog\<close>, at index \<open>i\<close> and entry \<open>e\<close>.\<close>

definition analyze_entry :: "nat \<Rightarrow> nat \<Rightarrow> entry \<Rightarrow> results \<Rightarrow> results" where
  "analyze_entry n i e res =
     (if event e = ''EAT_START'' then
        (let leftNeighbor = js_rem (int (phil e) - 1 + int n) (int n);
             rightNeighbor = js_rem (int (phil e) + 1) (int n);
             res1 = (if has (currentlyEating res) leftNeighbor
                     then res\<lparr>mutualExclusionViolations := mutualExclusionViolations res @
                            [\<lparr>index = i, error = ''Philosopher '' @ string_of_nat (phil e) @
                               '' started eating while neighbor '' @
                               string_of_num leftNeighbor @ '' is eating''\<rparr>]\<rparr>
                     else res);
             res2 = (if has (currentlyEating res1) rightNeighbor
                     then res1\<lparr>mutualExclusionViolations := mutualExclusionViolations res1 @
                            [\<lparr>index = i, error = ''Philosopher '' @ string_of_nat (phil e) @
                               '' started eating while neighbor '' @
                               string_of_num rightNeighbor @ '' is eating''\<rparr>]\<rparr>
                     else res1)
         in res2\<lparr>currentlyEating := insert (phil e) (currentlyEating res2)\<rparr>)
      else if event e = ''EAT_END'' then
        (let res1 = (if phil e \<notin> currentlyEating res
                     then res\<lparr>sequenceErrors := sequenceErrors res @
                            [\<lparr>index = i, error = ''Philosopher '' @ string_of_nat (phil e) @
                               '' ended eating but was not eating''\<rparr>]\<rparr>
                     else res);
             res2 = res1\<lparr>currentlyEating := currentlyEating res1 - {phil e}\<rparr>
         in res2\<lparr>mealsPerPhilosopher := increment_at (mealsPerPhilosopher res2) (phil e)\<rparr>)
      else res)"

fun analyze_loop :: "nat \<Rightarrow> nat \<Rightarrow> entry list \<Rightarrow> results \<Rightarrow> results" where
  "analyze_loop n i [] res = res"
| "analyze_loop n i (e # es) res = analyze_loop n (Suc i) es (analyze_entry n i e res)"

definition analyzeLog :: "entry list \<Rightarrow> nat \<Rightarrow> results" where
  "analyzeLog lg n =
     analyze_loop n 0 lg
       \<lparr>mealsPerPhilosopher = replicate n (Num 0), sequenceErrors = [],
        mutualExclusionViolations = [], currentlyEating = {}\<rparr>"

text \<open>
  The analyzer as the specification words it: the ring neighbours of an actor, the set of
  actors marked as eating after a trace (added on EAT\_START, removed on EAT\_END), and
  the meals of an actor (its EAT\_END events).
\<close>

definition ring_left :: "nat \<Rightarrow> nat \<Rightarrow> nat" where
  "ring_left i n = nat ((int i - 1) mod int n)"

definition ring_right :: "nat \<Rightarrow> nat \<Rightarrow> nat" where
  "ring_right i n = (i + 1) mod n"

definition spec_eating :: "entry list \<Rightarrow> nat set" where
  "spec_eating lg =
     foldl (\<lambda>S e. if event e = ''EAT_START'' then insert (phil e) S
                   else if event e = ''EAT_END'' then S - {phil e} else S) {} lg"

definition spec_meals :: "entry list \<Rightarrow> nat \<Rightarrow> nat" where
  "spec_meals lg i = length (filter (\<lambda>e. event e = ''EAT_END'' \<and> phil e = i) lg)"

definition spec_violation :: "entry list \<Rightarrow> nat \<Rightarrow> nat \<Rightarrow> bool" where
  "spec_violation lg n k =
     (k < length lg \<and> event (lg ! k) = ''EAT_START'' \<and> 0 < n \<and>
      (ring_left (phil (lg ! k)) n \<in> spec_eating (take k lg) \<or>
       ring_right (phil (lg ! k)) n \<in> spec_eating (take k lg)))"

definition spec_sequence_error :: "entry list \<Rightarrow> nat \<Rightarrow> bool" where
  "spec_sequence_error lg k =
     (k < length lg \<and> event (lg ! k) = ''EAT_END'' \<and> phil (lg ! k) \<notin> spec_eating (take k lg))"

section \<open>Properties\<close>

subsection \<open>Helper lemmas\<close>

lemma string_of_nat_small:
  "string_of_nat 0 = ''0''" "string_of_nat 1 = ''1''" "string_of_nat (Suc 0) = ''1''"
  "string_of_nat 2 = ''2''" "string_of_nat 3 = ''3''" "string_of_nat 4 = ''4''"
  "string_of_nat 5 = ''5''"
  by code_simp+

lemma eventLog_log:
  "eventLog (log p ev fks L) =
     eventLog L @ [\<lparr>runId = currentRunId L, algorithm = currentAlgorithm L,
                    t = clock L (ticks L) - startTime L, phil = p, event = ev, forks = fks\<rparr>]"
  by (simp add: log_def date_now_def Let_def)

lemma log_settings:
  "currentRunId (log p ev fks L) = currentRunId L"
  "currentAlgorithm (log p ev fks L) = currentAlgorithm L"
  "startTime (log p ev fks L) = startTime L"
  "clock (log p ev fks L) = clock L"
  "ticks (log p ev fks L) = Suc (ticks L)"
  by (simp_all add: log_def date_now_def Let_def)

lemma perform_settings:
  "currentRunId (foldl perform L calls) = currentRunId L"
  "currentAlgorithm (foldl perform L calls) = currentAlgorithm L"
  "startTime (foldl perform L calls) = startTime L"
  "clock (foldl perform L calls) = clock L"
proof (induction calls arbitrary: L)
  case Nil
  {
    case 1 show ?case by simp
  next
    case 2 show ?case by simp
  next
    case 3 show ?case by simp
  next
    case 4 show ?case by simp
  }
next
  case (Cons c calls)
  {
    case 1 show ?case by (cases c) (simp_all add: Cons.IH log_settings clearEventLog_def)
  next
    case 2 show ?case by (cases c) (simp_all add: Cons.IH log_settings clearEventLog_def)
  next
    case 3 show ?case by (cases c) (simp_all add: Cons.IH log_settings clearEventLog_def)
  next
    case 4 show ?case by (cases c) (simp_all add: Cons.IH log_settings clearEventLog_def)
  }
qed

lemma startRun_settings:
  "fst (startRun alg rnd L) = rnd"
  "currentRunId (snd (startRun alg rnd L)) = Some rnd"
  "currentAlgorithm (snd (startRun alg rnd L)) = (if falsy alg then currentAlgorithm L else the alg)"
  "startTime (snd (startRun alg rnd L)) = clock L (ticks L)"
  "clock (snd (startRun alg rnd L)) = clock L"
  "ticks (snd (startRun alg rnd L)) = Suc (ticks L)"
  "eventLog (snd (startRun alg rnd L)) = eventLog L"
  by (simp_all add: startRun_def date_now_def Let_def)

lemma logged_eq:
  "logged p ev fks L =
     \<lparr>runId = currentRunId L, algorithm = currentAlgorithm L,
      t = clock L (ticks L) - startTime L, phil = p, event = ev, forks = fks\<rparr>"
  by (simp add: logged_def eventLog_log)

subsection \<open>Release\<close>

text \<open>
  Claim C2. \<^verbatim>\<open>Fork.release(r, forks)\<close> throws exactly when \<open>r\<close> is not the holder of the
  fork, a free fork with no holder included. The message of the error is
  \<^verbatim>\<open>Philosopher r cannot release fork held by h\<close> with the requester \<open>r\<close> and the holder
  \<open>h\<close> (\<^verbatim>\<open>null\<close> when there is none). When \<open>r\<close> is the holder, the fork becomes free,
  its holder is cleared, and the log grows by one RELEASE event of \<open>r\<close>.
\<close>

theorem release_ownership:
  "(holder f \<noteq> Some r \<longrightarrow>
      release r fks (f, L) =
        (Thrown (Error (''Philosopher '' @ string_of_nat r @
                        '' cannot release fork held by '' @ string_of_holder (holder f))),
         f, L)) \<and>
   (holder f = Some r \<longrightarrow>
      release r fks (f, L) =
        (Returned, f\<lparr>state := 0, holder := None\<rparr>, log r ''RELEASE'' fks L) \<and>
      eventLog (log r ''RELEASE'' fks L) =
        eventLog L @ [\<lparr>runId = currentRunId L, algorithm = currentAlgorithm L,
                       t = clock L (ticks L) - startTime L, phil = r, event = ''RELEASE'',
                       forks = fks\<rparr>]) \<and>
   ((\<exists>err. fst (release r fks (f, L)) = Thrown err) \<longleftrightarrow> holder f \<noteq> Some r)"
  by (simp add: release_def eventLog_log)

theorem release_ownership_witness:
  "release 2 [0] (\<lparr>id_fork = 0, state = 1, holder = Some 1\<rparr>, initial_logger int) =
     (Thrown (Error ''Philosopher 2 cannot release fork held by 1''),
      \<lparr>id_fork = 0, state = 1, holder = Some 1\<rparr>, initial_logger int) \<and>
   release 0 [0] (\<lparr>id_fork = 0, state = 1, holder = None\<rparr>, initial_logger int) =
     (Thrown (Error ''Philosopher 0 cannot release fork held by null''),
      \<lparr>id_fork = 0, state = 1, holder = None\<rparr>, initial_logger int) \<and>
   release 3 [0] (\<lparr>id_fork = 0, state = 1, holder = Some 3\<rparr>, initial_logger int) =
     (Returned, \<lparr>id_fork = 0, state = 0, holder = None\<rparr>,
      log 3 ''RELEASE'' [0] (initial_logger int)) \<and>
   eventLog (log 3 ''RELEASE'' [0] (initial_logger int)) =
     [\<lparr>runId = None, algorithm = ''unknown'', t = 1, phil = 3, event = ''RELEASE'',
       forks = [0]\<rparr>]"
  using release_ownership [of "\<lparr>id_fork = 0, state = 1, holder = Some 1\<rparr>" 2 "[0]" "initial_logger int"]
        release_ownership [of "\<lparr>id_fork = 0, state = 1, holder = None\<rparr>" 0 "[0]" "initial_logger int"]
        release_ownership [of "\<lparr>id_fork = 0, state = 1, holder = Some 3\<rparr>" 3 "[0]" "initial_logger int"]
  by (simp add: string_of_nat_small string_of_holder_def initial_logger_def)

text \<open>
  Claim C9. A \<^verbatim>\<open>release\<close> that throws leaves the fork and the module state as they were:
  state and holder are unchanged, and no event is appended to the log or printed.
\<close>

theorem release_failure_atomic:
  assumes "fst (release r fks (f, L)) = Thrown err"
  shows "snd (release r fks (f, L)) = (f, L) \<and>
         state (fst (snd (release r fks (f, L)))) = state f \<and>
         holder (fst (snd (release r fks (f, L)))) = holder f \<and>
         eventLog (snd (snd (release r fks (f, L)))) = eventLog L \<and>
         console (snd (snd (release r fks (f, L)))) = console L"
  using assms by (simp add: release_def split: if_splits)

theorem release_failure_atomic_witness:
  "snd (release 2 [0, 1] (\<lparr>id_fork = 0, state = 1, holder = Some 1\<rparr>, initial_logger int)) =
     (\<lparr>id_fork = 0, state = 1, holder = Some 1\<rparr>, initial_logger int)"
proof -
  have "fst (release 2 [0, 1] (\<lparr>id_fork = 0, state = 1, holder = Some 1\<rparr>, initial_logger int)) =
          Thrown (Error ''Philosopher 2 cannot release fork held by 1'')"
    by (simp add: release_def string_of_nat_small string_of_holder_def)
  from release_failure_atomic [OF this] show ?thesis by simp
qed

subsection \<open>Run lifecycle\<close>

text \<open>
  Claim C10. \<^verbatim>\<open>startRun\<close> with a missing or empty algorithm name returns a new run
  identifier, stores it, resets the origin of the elapsed time to the current clock, and
  keeps the algorithm label that was set before: the events logged afterwards carry the
  old label.
\<close>

theorem startRun_falsy_keeps_algorithm:
  assumes "falsy alg"
  shows "fst (startRun alg rnd L) = rnd \<and>
         currentRunId (snd (startRun alg rnd L)) = Some rnd \<and>
         startTime (snd (startRun alg rnd L)) = clock L (ticks L) \<and>
         currentAlgorithm (snd (startRun alg rnd L)) = currentAlgorithm L \<and>
         algorithm (last (eventLog (log p ev fks
            (foldl perform (snd (startRun alg rnd L)) calls)))) = currentAlgorithm L"
  using assms by (simp add: eventLog_log perform_settings startRun_settings)

theorem startRun_falsy_keeps_algorithm_witness:
  "algorithm (last (eventLog (log 0 ''TRY'' [0, 1]
      (foldl perform (snd (startRun (Some []) ''k3x9ab''
         (snd (startRun (Some ''naive'') ''a1b2c3'' (initial_logger int))))) [])))) = ''naive''"
proof -
  have "falsy (Some [])" by (simp add: falsy_def)
  from startRun_falsy_keeps_algorithm [OF this, of "''k3x9ab''"
      "snd (startRun (Some ''naive'') ''a1b2c3'' (initial_logger int))" 0 "''TRY''" "[0, 1]" "[]"]
  show ?thesis by (simp add: startRun_settings falsy_def)
qed

lemma perform_one:
  "currentRunId (perform L c) = currentRunId L" "startTime (perform L c) = startTime L"
  "clock (perform L c) = clock L" "currentAlgorithm (perform L c) = currentAlgorithm L"
  by (cases c; simp add: log_settings clearEventLog_def)+

lemma perform_any_one:
  "currentRunId (perform_any L c) = currentRunId L"
  "startTime (perform_any L c) = startTime L"
  "clock (perform_any L c) = clock L"
  "current_label (currentAlgorithm (perform_any L c)) calls =
     current_label (currentAlgorithm L) (c # calls)"
  by (cases c; simp add: perform_one setAlgorithm_def)+

lemma perform_any_settings:
  "currentRunId (foldl perform_any L calls) = currentRunId L \<and>
   startTime (foldl perform_any L calls) = startTime L \<and>
   clock (foldl perform_any L calls) = clock L \<and>
   currentAlgorithm (foldl perform_any L calls) = current_label (currentAlgorithm L) calls"
proof (induction calls arbitrary: L)
  case Nil
  show ?case by simp
next
  case (Cons c calls)
  show ?case
    by (simp add: Cons.IH perform_any_one del: current_label.simps)
qed

lemma current_label_append:
  "current_label lbl (xs @ ys) = current_label (current_label lbl xs) ys"
  by (induction lbl xs rule: current_label.induct) simp_all

lemma current_label_Calls: "current_label lbl (map Call cs) = lbl"
  by (induction cs) simp_all

lemma current_label_none:
  "(\<forall>name. SetAlgorithm name \<notin> set calls) \<Longrightarrow> current_label lbl calls = lbl"
  by (induction lbl calls rule: current_label.induct) simp_all

text \<open>
  Against claim C8 as it is stated: after \<^verbatim>\<open>startRun('y')\<close> and \<^verbatim>\<open>setAlgorithm('x')\<close>
  the record that \<^verbatim>\<open>log\<close> appends carries the algorithm \<open>x\<close>, not the label \<open>y\<close> that
  \<^verbatim>\<open>startRun\<close> stored.
\<close>

theorem log_entry_fields_counterexample:
  "algorithm (last (eventLog (log 0 ''TRY'' [0, 1]
      (setAlgorithm ''x'' (snd (startRun (Some ''y'') ''a1b2c3'' (initial_logger int))))))) = ''x'' \<and>
   currentAlgorithm (snd (startRun (Some ''y'') ''a1b2c3'' (initial_logger int))) = ''y'' \<and>
   algorithm (last (eventLog (log 0 ''TRY'' [0, 1]
      (setAlgorithm ''x'' (snd (startRun (Some ''y'') ''a1b2c3'' (initial_logger int))))))) \<noteq>
   currentAlgorithm (snd (startRun (Some ''y'') ''a1b2c3'' (initial_logger int)))"
  by (simp add: eventLog_log setAlgorithm_def startRun_settings falsy_def)

text \<open>
  Claim C8, amended. After \<^verbatim>\<open>startRun(alg)\<close>, followed by any calls of \<^verbatim>\<open>log\<close>,
  \<^verbatim>\<open>clearEventLog\<close> and \<^verbatim>\<open>setAlgorithm\<close>, a call of \<^verbatim>\<open>log\<close> appends one record with the
  six fields \<open>runId\<close>, \<open>algorithm\<close>, \<open>t\<close>, \<open>phil\<close>, \<open>event\<close>, \<open>forks\<close>: the run
  identifier is the one \<^verbatim>\<open>startRun\<close> returned, \<open>t\<close> is the clock at the call minus the
  clock at \<^verbatim>\<open>startRun\<close>, and the algorithm is the label current at the call, which is the
  one \<^verbatim>\<open>startRun\<close> stored when no \<^verbatim>\<open>setAlgorithm\<close> came since, and the name given to the
  latest \<^verbatim>\<open>setAlgorithm\<close> otherwise. \<^verbatim>\<open>clearEventLog\<close> leaves the log empty.
\<close>

theorem log_entry_fields:
  "eventLog (log p ev fks (foldl perform_any (snd (startRun alg rnd L0)) calls)) =
     eventLog (foldl perform_any (snd (startRun alg rnd L0)) calls) @
       [\<lparr>runId = Some (fst (startRun alg rnd L0)),
         algorithm = current_label (if falsy alg then currentAlgorithm L0 else the alg) calls,
         t = clock L0 (ticks (foldl perform_any (snd (startRun alg rnd L0)) calls)) -
             clock L0 (ticks L0),
         phil = p, event = ev, forks = fks\<rparr>] \<and>
   fst (startRun alg rnd L0) = rnd \<and>
   ((\<forall>name. SetAlgorithm name \<notin> set calls) \<longrightarrow> current_label lbl calls = lbl) \<and>
   current_label lbl (calls @ SetAlgorithm name # map Call cs) = name \<and>
   eventLog (clearEventLog L) = [] \<and> getEventLog (clearEventLog L) = []"
  by (simp add: eventLog_log perform_any_settings startRun_settings clearEventLog_def
      getEventLog_def current_label_none current_label_append current_label_Calls)

theorem log_entry_fields_witness:
  "eventLog (log 1 ''EAT_END'' [1, 2] (foldl perform_any
      (snd (startRun (Some ''test-algorithm'') ''a1b2c3'' (initial_logger int)))
      [Call ClearEventLog])) =
     [\<lparr>runId = Some ''a1b2c3'', algorithm = ''test-algorithm'', t = 1, phil = 1,
       event = ''EAT_END'', forks = [1, 2]\<rparr>] \<and>
   eventLog (log 1 ''EAT_END'' [1, 2] (foldl perform_any
      (snd (startRun (Some ''test-algorithm'') ''a1b2c3'' (initial_logger int)))
      [SetAlgorithm ''other'', Call (Log 0 ''TRY'' [0, 1])])) =
     [\<lparr>runId = Some ''a1b2c3'', algorithm = ''other'', t = 1, phil = 0,
       event = ''TRY'', forks = [0, 1]\<rparr>,
      \<lparr>runId = Some ''a1b2c3'', algorithm = ''other'', t = 2, phil = 1,
       event = ''EAT_END'', forks = [1, 2]\<rparr>]"
  using log_entry_fields [of 1 "''EAT_END''" "[1, 2]" "Some ''test-algorithm''" "''a1b2c3''"
      "initial_logger int" "[Call ClearEventLog]" "''test-algorithm''" "''x''" "[]"]
    log_entry_fields [of 1 "''EAT_END''" "[1, 2]" "Some ''test-algorithm''" "''a1b2c3''"
      "initial_logger int" "[SetAlgorithm ''other'', Call (Log 0 ''TRY'' [0, 1])]"
      "''test-algorithm''" "''x''" "[]"]
  by (simp add: startRun_settings falsy_def clearEventLog_def setAlgorithm_def
      initial_logger_def eventLog_log log_settings)

subsection \<open>Acquire\<close>

lemma backoff_double:
  "min (min (2 ^ i) 1000 * 2) 1000 = min (2 ^ Suc i) (1000::nat)"
  by (simp add: min_def)

lemma length_checks: "length (checks w env) = Suc (length env)"
  by (induction env arbitrary: w) simp_all

lemma acquire_loop_Cons:
  "state f \<noteq> 0 \<Longrightarrow>
     acquire_loop r fks wt (f, L) (g # env) =
       (Waited wt # fst (acquire_loop r fks (min (wt * 2) 1000) (g (f, L)) env),
        snd (acquire_loop r fks (min (wt * 2) 1000) (g (f, L)) env))"
  by (simp add: acquire_loop.simps [of r fks wt f L] split: prod.splits)

lemma acquire_loop_trace:
  "fst (acquire_loop r fks (min (2 ^ i) 1000) w env) =
     (let obs = checks w env; j = length (takeWhile (\<lambda>w. state (fst w) \<noteq> 0) obs)
      in map (\<lambda>k. Waited (min (2 ^ (i + k)) 1000)) [0..<j] @
         (if j < length obs then [Logged (logged r ''ACQUIRE'' fks (snd (obs ! j)))] else []))"
proof (induction env arbitrary: i w)
  case Nil
  show ?case by (cases w) (simp add: acquire_loop.simps)
next
  case (Cons g env)
  obtain f L where w: "w = (f, L)" by (cases w)
  show ?case
  proof (cases "state f = 0")
    case True
    then show ?thesis by (simp add: w acquire_loop.simps)
  next
    case False
    have "fst (acquire_loop r fks (min (2 ^ i) 1000) w (g # env)) =
            Waited (min (2 ^ i) 1000) #
            fst (acquire_loop r fks (min (2 ^ Suc i) 1000) (g w) env)"
      using False by (simp add: w acquire_loop_Cons backoff_double)
    also have "fst (acquire_loop r fks (min (2 ^ Suc i) 1000) (g w) env) =
      (let obs = checks (g w) env; j = length (takeWhile (\<lambda>w. state (fst w) \<noteq> 0) obs)
       in map (\<lambda>k. Waited (min (2 ^ (Suc i + k)) 1000)) [0..<j] @
          (if j < length obs then [Logged (logged r ''ACQUIRE'' fks (snd (obs ! j)))] else []))"
      by (rule Cons.IH)
    finally show ?thesis
      using False
      by (simp add: w Let_def map_upt_Suc length_checks del: upt_Suc)
  qed
qed

lemma acquire_loop_result:
  "snd (acquire_loop r fks wt w env) =
     (let obs = checks w env; j = length (takeWhile (\<lambda>w. state (fst w) \<noteq> 0) obs)
      in if j < length obs
         then Some ((fst (obs ! j))\<lparr>state := 1, holder := Some r\<rparr>,
                    log r ''ACQUIRE'' fks (snd (obs ! j)))
         else None)"
proof (induction env arbitrary: wt w)
  case Nil
  show ?case by (cases w) (simp add: acquire_loop.simps)
next
  case (Cons g env)
  obtain f L where w: "w = (f, L)" by (cases w)
  show ?case
  proof (cases "state f = 0")
    case True
    then show ?thesis by (simp add: w acquire_loop.simps)
  next
    case False
    then show ?thesis
      by (simp add: w acquire_loop_Cons Cons.IH Let_def length_checks)
  qed
qed

lemma acquire_parts:
  "fst (acquire r fks (f, L) env) =
     Logged (logged r ''TRY'' fks L) # fst (acquire_loop r fks 1 (f, log r ''TRY'' fks L) env)"
  "snd (acquire r fks (f, L) env) = snd (acquire_loop r fks 1 (f, log r ''TRY'' fks L) env)"
  by (simp_all add: acquire_def split: prod.splits)

text \<open>
  Claim C3. What \<^verbatim>\<open>Fork.acquire(r, forks)\<close> does, on every path: it logs one TRY event
  first, in the state of the call; then, with \<open>obs\<close> the states found at the successive
  checks (the first is the state of the call with the TRY event appended) and \<open>j\<close> the
  number of leading checks that find the fork held, it waits \<open>min (2 ^ k) 1000\<close> for
  \<open>k = 0, \<dots>, j - 1\<close>, that is 1, 2, 4, 8, \<dots> capped at 1000; at the first check that
  finds the fork free the fork becomes held by \<open>r\<close>, one ACQUIRE event is logged in that
  same step with nothing in between, and the call returns. The call is still suspended
  when every check found the fork held: on a held fork and with no resumption it has
  logged TRY and asked for a wait of 1. On a fork that is free at the call there is no
  wait, and the log grows by TRY and ACQUIRE.
\<close>

theorem acquire_backoff:
  "(let obs = checks (f, log r ''TRY'' fks L) env;
        j = length (takeWhile (\<lambda>w. state (fst w) \<noteq> 0) obs);
        M = snd (obs ! j)
    in fst (acquire r fks (f, L) env) =
         Logged \<lparr>runId = currentRunId L, algorithm = currentAlgorithm L,
                 t = clock L (ticks L) - startTime L, phil = r, event = ''TRY'',
                 forks = fks\<rparr> #
         map (\<lambda>k. Waited (min (2 ^ k) 1000)) [0..<j] @
         (if j < length obs
          then [Logged \<lparr>runId = currentRunId M, algorithm = currentAlgorithm M,
                         t = clock M (ticks M) - startTime M, phil = r, event = ''ACQUIRE'',
                         forks = fks\<rparr>]
          else []) \<and>
       snd (acquire r fks (f, L) env) =
         (if j < length obs
          then Some ((fst (obs ! j))\<lparr>state := 1, holder := Some r\<rparr>, log r ''ACQUIRE'' fks M)
          else None) \<and>
       eventLog (log r ''ACQUIRE'' fks M) =
         eventLog M @ [\<lparr>runId = currentRunId M, algorithm = currentAlgorithm M,
                        t = clock M (ticks M) - startTime M, phil = r, event = ''ACQUIRE'',
                        forks = fks\<rparr>] \<and>
       eventLog (snd (obs ! 0)) =
         eventLog L @ [\<lparr>runId = currentRunId L, algorithm = currentAlgorithm L,
                        t = clock L (ticks L) - startTime L, phil = r, event = ''TRY'',
                        forks = fks\<rparr>]) \<and>
   (state f \<noteq> 0 \<longrightarrow>
      acquire r fks (f, L) [] =
        ([Logged \<lparr>runId = currentRunId L, algorithm = currentAlgorithm L,
                   t = clock L (ticks L) - startTime L, phil = r, event = ''TRY'',
                   forks = fks\<rparr>,
          Waited 1], None)) \<and>
   (state f = 0 \<longrightarrow>
      acquire r fks (f, L) env =
        ([Logged \<lparr>runId = currentRunId L, algorithm = currentAlgorithm L,
                   t = clock L (ticks L) - startTime L, phil = r, event = ''TRY'',
                   forks = fks\<rparr>,
          Logged \<lparr>runId = currentRunId L, algorithm = currentAlgorithm L,
                   t = clock L (Suc (ticks L)) - startTime L, phil = r, event = ''ACQUIRE'',
                   forks = fks\<rparr>],
         Some (f\<lparr>state := 1, holder := Some r\<rparr>,
               log r ''ACQUIRE'' fks (log r ''TRY'' fks L))) \<and>
      eventLog (log r ''ACQUIRE'' fks (log r ''TRY'' fks L)) =
        eventLog L @
          [\<lparr>runId = currentRunId L, algorithm = currentAlgorithm L,
            t = clock L (ticks L) - startTime L, phil = r, event = ''TRY'', forks = fks\<rparr>,
           \<lparr>runId = currentRunId L, algorithm = currentAlgorithm L,
            t = clock L (Suc (ticks L)) - startTime L, phil = r, event = ''ACQUIRE'',
            forks = fks\<rparr>])"
proof -
  note tr = acquire_parts(1) [of r fks f L env] and res = acquire_parts(2) [of r fks f L env]
  have one: "(1::nat) = min (2 ^ 0) 1000" by simp
  have "fst (acquire r fks (f, L) env) =
     (let obs = checks (f, log r ''TRY'' fks L) env;
          j = length (takeWhile (\<lambda>w. state (fst w) \<noteq> 0) obs)
      in Logged (logged r ''TRY'' fks L) #
         map (\<lambda>k. Waited (min (2 ^ k) 1000)) [0..<j] @
         (if j < length obs then [Logged (logged r ''ACQUIRE'' fks (snd (obs ! j)))] else []))"
    unfolding tr by (subst one, subst acquire_loop_trace) (simp add: Let_def)
  moreover have "snd (acquire r fks (f, L) env) =
     (let obs = checks (f, log r ''TRY'' fks L) env;
          j = length (takeWhile (\<lambda>w. state (fst w) \<noteq> 0) obs)
      in if j < length obs
         then Some ((fst (obs ! j))\<lparr>state := 1, holder := Some r\<rparr>,
                    log r ''ACQUIRE'' fks (snd (obs ! j)))
         else None)"
    by (simp add: res acquire_loop_result)
  moreover have "eventLog (snd (checks (f, log r ''TRY'' fks L) env ! 0)) =
      eventLog L @ [logged r ''TRY'' fks L]"
    by (cases env) (simp_all add: eventLog_log logged_eq)
  moreover have "state f \<noteq> 0 \<longrightarrow>
      acquire r fks (f, L) [] = ([Logged (logged r ''TRY'' fks L), Waited 1], None)"
    by (simp add: acquire_def acquire_loop.simps)
  moreover have "state f = 0 \<longrightarrow>
      acquire r fks (f, L) env =
        ([Logged (logged r ''TRY'' fks L), Logged (logged r ''ACQUIRE'' fks (log r ''TRY'' fks L))],
         Some (f\<lparr>state := 1, holder := Some r\<rparr>,
               log r ''ACQUIRE'' fks (log r ''TRY'' fks L)))"
    by (simp add: acquire_def acquire_loop.simps)
  ultimately show ?thesis
    by (simp add: Let_def eventLog_log log_settings logged_eq)
qed

theorem acquire_backoff_witness:
  "fst (acquire 0 [0, 1] (\<lparr>id_fork = 1, state = 1, holder = Some 1\<rparr>, initial_logger int)
     [id, snd \<circ> release 1 [1, 2]]) =
     [Logged \<lparr>runId = None, algorithm = ''unknown'', t = 1, phil = 0, event = ''TRY'',
               forks = [0, 1]\<rparr>,
      Waited 1, Waited 2,
      Logged \<lparr>runId = None, algorithm = ''unknown'', t = 3, phil = 0, event = ''ACQUIRE'',
               forks = [0, 1]\<rparr>] \<and>
   map_option fst (snd (acquire 0 [0, 1]
       (\<lparr>id_fork = 1, state = 1, holder = Some 1\<rparr>, initial_logger int)
       [id, snd \<circ> release 1 [1, 2]])) =
     Some \<lparr>id_fork = 1, state = 1, holder = Some 0\<rparr> \<and>
   map_option (eventLog \<circ> snd) (snd (acquire 0 [0, 1]
       (\<lparr>id_fork = 1, state = 1, holder = Some 1\<rparr>, initial_logger int)
       [id, snd \<circ> release 1 [1, 2]])) =
     Some [\<lparr>runId = None, algorithm = ''unknown'', t = 1, phil = 0, event = ''TRY'',
             forks = [0, 1]\<rparr>,
           \<lparr>runId = None, algorithm = ''unknown'', t = 2, phil = 1, event = ''RELEASE'',
             forks = [1, 2]\<rparr>,
           \<lparr>runId = None, algorithm = ''unknown'', t = 3, phil = 0, event = ''ACQUIRE'',
             forks = [0, 1]\<rparr>] \<and>
   acquire 0 [0, 1] (\<lparr>id_fork = 1, state = 1, holder = Some 1\<rparr>, initial_logger int)
     [id, id, id, id, id, id, id, id, id, id, id] =
     ([Logged \<lparr>runId = None, algorithm = ''unknown'', t = 1, phil = 0, event = ''TRY'',
                forks = [0, 1]\<rparr>,
       Waited 1, Waited 2, Waited 4, Waited 8, Waited 16, Waited 32, Waited 64, Waited 128,
       Waited 256, Waited 512, Waited 1000, Waited 1000], None) \<and>
   acquire 0 [0, 1] (\<lparr>id_fork = 1, state = 1, holder = Some 1\<rparr>, initial_logger int) [] =
     ([Logged \<lparr>runId = None, algorithm = ''unknown'', t = 1, phil = 0, event = ''TRY'',
                forks = [0, 1]\<rparr>,
       Waited 1], None) \<and>
   fst (acquire 0 [0, 1] (Fork 0, initial_logger int) []) =
     [Logged \<lparr>runId = None, algorithm = ''unknown'', t = 1, phil = 0, event = ''TRY'',
               forks = [0, 1]\<rparr>,
      Logged \<lparr>runId = None, algorithm = ''unknown'', t = 2, phil = 0, event = ''ACQUIRE'',
               forks = [0, 1]\<rparr>]"
  using acquire_backoff [of "\<lparr>id_fork = 1, state = 1, holder = Some 1\<rparr>" 0 "[0, 1]"
          "initial_logger int" "[id, snd \<circ> release 1 [1, 2]]"]
        acquire_backoff [of "\<lparr>id_fork = 1, state = 1, holder = Some 1\<rparr>" 0 "[0, 1]"
          "initial_logger int" "[id, id, id, id, id, id, id, id, id, id, id]"]
        acquire_backoff [of "\<lparr>id_fork = 1, state = 1, holder = Some 1\<rparr>" 0 "[0, 1]"
          "initial_logger int" "[]"]
        acquire_backoff [of "Fork 0" 0 "[0, 1]" "initial_logger int" "[]"]
  by (simp add: Let_def Fork_def prod_eq_iff release_def log_def date_now_def
      initial_logger_def upt_rec [of _ "numeral _"] upt_rec [of _ "Suc _"])

subsection \<open>The fork invariant\<close>

text \<open>
  Claim C6. The invariant \<open>state = 1\<close> iff \<open>holder\<close> is set holds for a new fork, holds
  after every \<^verbatim>\<open>acquire\<close> that returns, and is preserved by every \<^verbatim>\<open>release\<close>, thrown
  or not. A \<^verbatim>\<open>release\<close> returns only for the holder, and only the holder's \<^verbatim>\<open>release\<close>
  takes a fork that is not free back to free.
\<close>

theorem fork_invariant:
  "fork_inv (Fork i) \<and>
   (snd (acquire r fks (f, L) env) = Some (f', L') \<longrightarrow>
      fork_inv f' \<and> state f' = 1 \<and> holder f' = Some r) \<and>
   (fork_inv f \<longrightarrow> fork_inv (fst (snd (release r fks (f, L))))) \<and>
   (fst (release r fks (f, L)) = Returned \<longrightarrow> holder f = Some r) \<and>
   (state f \<noteq> 0 \<and> state (fst (snd (release r fks (f, L)))) = 0 \<longrightarrow> holder f = Some r)"
proof -
  have "fork_inv (Fork i)"
    by (simp add: fork_inv_def Fork_def)
  moreover have "snd (acquire r fks (f, L) env) = Some (f', L') \<longrightarrow>
      fork_inv f' \<and> state f' = 1 \<and> holder f' = Some r"
    by (auto simp: acquire_parts acquire_loop_result Let_def fork_inv_def split: if_splits)
  moreover have "fork_inv f \<longrightarrow> fork_inv (fst (snd (release r fks (f, L))))"
    by (auto simp: release_def fork_inv_def)
  moreover have "fst (release r fks (f, L)) = Returned \<longrightarrow> holder f = Some r"
    by (simp add: release_def split: if_splits)
  moreover have "state f \<noteq> 0 \<and> state (fst (snd (release r fks (f, L)))) = 0 \<longrightarrow>
      holder f = Some r"
    by (auto simp: release_def split: if_splits)
  ultimately show ?thesis by blast
qed

theorem fork_invariant_witness:
  "fork_inv (Fork 0) \<and>
   fork_inv \<lparr>id_fork = 0, state = 1, holder = Some 2\<rparr> \<and>
   fork_inv (fst (snd (release 3 [0] (\<lparr>id_fork = 0, state = 1, holder = Some 3\<rparr>,
                                       initial_logger int)))) \<and>
   fork_inv (fst (snd (release 2 [0] (\<lparr>id_fork = 0, state = 1, holder = Some 3\<rparr>,
                                       initial_logger int))))"
proof -
  have a: "snd (acquire 2 [0, 1] (Fork 0, initial_logger int) []) =
             Some (\<lparr>id_fork = 0, state = 1, holder = Some 2\<rparr>,
                   log 2 ''ACQUIRE'' [0, 1] (log 2 ''TRY'' [0, 1] (initial_logger int)))"
    by (simp add: acquire_def acquire_loop.simps Fork_def)
  have b: "fork_inv \<lparr>id_fork = 0, state = 1, holder = Some 3\<rparr>"
    by (simp add: fork_inv_def)
  have c: "fst (release 3 [0] (\<lparr>id_fork = 0, state = 1, holder = Some 3\<rparr>, initial_logger int)) =
             Returned"
    by (simp add: release_def)
  from fork_invariant [of 0 2 "[0, 1]" "Fork 0" "initial_logger int" "[]"
         "\<lparr>id_fork = 0, state = 1, holder = Some 2\<rparr>"
         "log 2 ''ACQUIRE'' [0, 1] (log 2 ''TRY'' [0, 1] (initial_logger int))"] a
       fork_invariant [of 0 3 "[0]" "\<lparr>id_fork = 0, state = 1, holder = Some 3\<rparr>"
         "initial_logger int" "[]"] b c
       fork_invariant [of 0 2 "[0]" "\<lparr>id_fork = 0, state = 1, holder = Some 3\<rparr>"
         "initial_logger int" "[]"]
  show ?thesis by simp
qed

subsection \<open>The trace analyzer\<close>

lemma analyze_loop_append:
  "analyze_loop n i (xs @ ys) res = analyze_loop n (i + length xs) ys (analyze_loop n i xs res)"
  by (induction xs arbitrary: i res) simp_all

lemma analyzeLog_snoc:
  "analyzeLog (lg @ [e]) n = analyze_entry n (length lg) e (analyzeLog lg n)"
  by (simp add: analyzeLog_def analyze_loop_append)

lemma analyzeLog_Nil:
  "analyzeLog [] n =
     \<lparr>mealsPerPhilosopher = replicate n (Num 0), sequenceErrors = [],
      mutualExclusionViolations = [], currentlyEating = {}\<rparr>"
  by (simp add: analyzeLog_def)

lemma js_rem_nonneg:
  assumes "0 \<le> a" "0 < b"
  shows "js_rem a b = Some (a mod b)"
proof (cases "a = 0")
  case True
  then show ?thesis using assms by (simp add: js_rem_def)
next
  case False
  with assms have "sgn a = 1" by simp
  then show ?thesis using assms by (simp add: js_rem_def)
qed

lemma has_left:
  "has S (js_rem (int p - 1 + int n) (int n)) = (0 < n \<and> ring_left p n \<in> S)"
proof (cases "n = 0")
  case True
  then show ?thesis by (simp add: has_def js_rem_def)
next
  case False
  then have "js_rem (int p - 1 + int n) (int n) = Some ((int p - 1 + int n) mod int n)"
    by (intro js_rem_nonneg) simp_all
  then show ?thesis
    using False by (simp add: has_def ring_left_def)
qed

lemma has_right:
  "has S (js_rem (int p + 1) (int n)) = (0 < n \<and> ring_right p n \<in> S)"
proof (cases "n = 0")
  case True
  then show ?thesis by (simp add: has_def js_rem_def)
next
  case False
  then have "js_rem (int p + 1) (int n) = Some ((int p + 1) mod int n)"
    by (intro js_rem_nonneg) simp_all
  moreover have "nat ((int p + 1) mod int n) = (p + 1) mod n"
    by (metis nat_int of_nat_1 of_nat_add zmod_int)
  ultimately show ?thesis
    using False by (simp add: has_def ring_right_def)
qed

lemma entry_eating:
  "currentlyEating (analyze_entry n i e res) =
     (if event e = ''EAT_START'' then insert (phil e) (currentlyEating res)
      else if event e = ''EAT_END'' then currentlyEating res - {phil e}
      else currentlyEating res)"
  by (simp add: analyze_entry_def Let_def)

lemma entry_meals:
  "mealsPerPhilosopher (analyze_entry n i e res) =
     (if event e = ''EAT_END'' then increment_at (mealsPerPhilosopher res) (phil e)
      else mealsPerPhilosopher res)"
  by (simp add: analyze_entry_def Let_def)

lemma entry_sequenceErrors:
  "sequenceErrors (analyze_entry n i e res) =
     (if event e = ''EAT_END'' \<and> phil e \<notin> currentlyEating res
      then sequenceErrors res @
             [\<lparr>index = i, error = ''Philosopher '' @ string_of_nat (phil e) @
                                   '' ended eating but was not eating''\<rparr>]
      else sequenceErrors res)"
  by (simp add: analyze_entry_def Let_def)

lemma entry_violations:
  "mutualExclusionViolations (analyze_entry n i e res) =
     mutualExclusionViolations res @
     (if event e = ''EAT_START'' \<and> 0 < n \<and> ring_left (phil e) n \<in> currentlyEating res
      then [\<lparr>index = i, error = ''Philosopher '' @ string_of_nat (phil e) @
              '' started eating while neighbor '' @
              string_of_num (js_rem (int (phil e) - 1 + int n) (int n)) @ '' is eating''\<rparr>]
      else []) @
     (if event e = ''EAT_START'' \<and> 0 < n \<and> ring_right (phil e) n \<in> currentlyEating res
      then [\<lparr>index = i, error = ''Philosopher '' @ string_of_nat (phil e) @
              '' started eating while neighbor '' @
              string_of_num (js_rem (int (phil e) + 1) (int n)) @ '' is eating''\<rparr>]
      else [])"
  by (simp add: analyze_entry_def Let_def has_left has_right)

lemma spec_eating_snoc:
  "spec_eating (lg @ [e]) =
     (if event e = ''EAT_START'' then insert (phil e) (spec_eating lg)
      else if event e = ''EAT_END'' then spec_eating lg - {phil e}
      else spec_eating lg)"
  by (simp add: spec_eating_def)

lemma analyzeLog_eating: "currentlyEating (analyzeLog lg n) = spec_eating lg"
proof (induction lg rule: rev_induct)
  case Nil
  show ?case by (simp add: analyzeLog_Nil spec_eating_def)
next
  case (snoc e lg)
  then show ?case by (simp add: analyzeLog_snoc entry_eating spec_eating_snoc)
qed

lemma increment_at_length: "length xs \<le> length (increment_at xs p)"
  by (simp add: increment_at_def)

lemma increment_at_nth:
  "i < length xs \<Longrightarrow> increment_at xs p ! i = (if p = i then incr (xs ! i) else xs ! i)"
  by (auto simp: increment_at_def nth_append)

lemma spec_meals_snoc:
  "spec_meals (lg @ [e]) i =
     (if event e = ''EAT_END'' \<and> phil e = i then Suc (spec_meals lg i) else spec_meals lg i)"
  by (simp add: spec_meals_def)

lemma analyzeLog_meals:
  "n \<le> length (mealsPerPhilosopher (analyzeLog lg n)) \<and>
   (i < n \<longrightarrow> mealsPerPhilosopher (analyzeLog lg n) ! i = Num (spec_meals lg i))"
proof (induction lg rule: rev_induct)
  case Nil
  show ?case by (simp add: analyzeLog_Nil spec_meals_def)
next
  case (snoc e lg)
  have len: "n \<le> length (mealsPerPhilosopher (analyzeLog lg n))"
    using snoc by simp
  have "n \<le> length (mealsPerPhilosopher (analyzeLog (lg @ [e]) n))"
    using len increment_at_length [of "mealsPerPhilosopher (analyzeLog lg n)" "phil e"]
    by (simp add: analyzeLog_snoc entry_meals)
  moreover have "mealsPerPhilosopher (analyzeLog (lg @ [e]) n) ! i = Num (spec_meals (lg @ [e]) i)"
    if "i < n"
  proof -
    from that len have "i < length (mealsPerPhilosopher (analyzeLog lg n))" by simp
    moreover from that snoc
    have "mealsPerPhilosopher (analyzeLog lg n) ! i = Num (spec_meals lg i)" by simp
    ultimately show ?thesis
      by (auto simp: analyzeLog_snoc entry_meals increment_at_nth spec_meals_snoc incr_def)
  qed
  ultimately show ?case by simp
qed

lemma violations_bound:
  "x \<in> set (mutualExclusionViolations (analyzeLog lg n)) \<Longrightarrow> index x < length lg"
proof (induction lg rule: rev_induct)
  case Nil
  then show ?case by (simp add: analyzeLog_Nil)
next
  case (snoc e lg)
  then show ?case
    by (auto simp: analyzeLog_snoc entry_violations less_Suc_eq split: if_splits)
qed

lemma sequenceErrors_bound:
  "x \<in> set (sequenceErrors (analyzeLog lg n)) \<Longrightarrow> index x < length lg"
proof (induction lg rule: rev_induct)
  case Nil
  then show ?case by (simp add: analyzeLog_Nil)
next
  case (snoc e lg)
  then show ?case
    by (auto simp: analyzeLog_snoc entry_sequenceErrors less_Suc_eq split: if_splits)
qed

lemma spec_violation_snoc:
  "spec_violation (lg @ [e]) n k =
     (spec_violation lg n k \<or>
      k = length lg \<and> event e = ''EAT_START'' \<and> 0 < n \<and>
      (ring_left (phil e) n \<in> spec_eating lg \<or> ring_right (phil e) n \<in> spec_eating lg))"
  by (auto simp: spec_violation_def nth_append less_Suc_eq)

lemma spec_sequence_error_snoc:
  "spec_sequence_error (lg @ [e]) k =
     (spec_sequence_error lg k \<or>
      k = length lg \<and> event e = ''EAT_END'' \<and> phil e \<notin> spec_eating lg)"
  by (auto simp: spec_sequence_error_def nth_append less_Suc_eq)

lemma analyzeLog_violations:
  "(\<exists>x \<in> set (mutualExclusionViolations (analyzeLog lg n)). index x = k) =
     spec_violation lg n k"
proof (induction lg rule: rev_induct)
  case Nil
  show ?case by (simp add: analyzeLog_Nil spec_violation_def)
next
  case (snoc e lg)
  have "(\<exists>x \<in> set (mutualExclusionViolations (analyzeLog (lg @ [e]) n)). index x = k) =
          ((\<exists>x \<in> set (mutualExclusionViolations (analyzeLog lg n)). index x = k) \<or>
           k = length lg \<and> event e = ''EAT_START'' \<and> 0 < n \<and>
           (ring_left (phil e) n \<in> spec_eating lg \<or> ring_right (phil e) n \<in> spec_eating lg))"
    by (auto simp: analyzeLog_snoc entry_violations analyzeLog_eating)
  then show ?case
    by (simp add: snoc.IH spec_violation_snoc)
qed

lemma analyzeLog_sequenceErrors:
  "(\<exists>x \<in> set (sequenceErrors (analyzeLog lg n)). index x = k) = spec_sequence_error lg k"
proof (induction lg rule: rev_induct)
  case Nil
  show ?case by (simp add: analyzeLog_Nil spec_sequence_error_def)
next
  case (snoc e lg)
  have "(\<exists>x \<in> set (sequenceErrors (analyzeLog (lg @ [e]) n)). index x = k) =
          ((\<exists>x \<in> set (sequenceErrors (analyzeLog lg n)). index x = k) \<or>
           k = length lg \<and> event e = ''EAT_END'' \<and> phil e \<notin> spec_eating lg)"
    by (auto simp: analyzeLog_snoc entry_sequenceErrors analyzeLog_eating)
  then show ?case
    by (simp add: snoc.IH spec_sequence_error_snoc)
qed

text \<open>
  Claim C7. \<^verbatim>\<open>analyzeLog\<close> is a function of the trace and of the actor count \<open>n\<close>. For an
  actor \<open>i < n\<close> the meal count is the number of EAT\_END events of \<open>i\<close>. A violation of
  mutual exclusion is reported at index \<open>k\<close> exactly when the \<open>k\<close>-th event is an
  EAT\_START of an actor whose left or right ring neighbour is marked as eating after the
  first \<open>k\<close> events. A sequence error is reported at index \<open>k\<close> exactly when the \<open>k\<close>-th
  event is an EAT\_END of an actor not marked as eating then. The set of actors marked
  as eating grows by the actor on EAT\_START and loses it on EAT\_END, and an event TRY,
  ACQUIRE, RELEASE or TIMEOUT changes nothing.
\<close>

theorem analyzeLog_spec:
  "(i < n \<longrightarrow> mealsPerPhilosopher (analyzeLog lg n) ! i = Num (spec_meals lg i)) \<and>
   (\<exists>x \<in> set (mutualExclusionViolations (analyzeLog lg n)). index x = k) =
     spec_violation lg n k \<and>
   (\<exists>x \<in> set (sequenceErrors (analyzeLog lg n)). index x = k) = spec_sequence_error lg k \<and>
   currentlyEating (analyzeLog lg n) = spec_eating lg \<and>
   currentlyEating (analyzeLog (lg @ [e]) n) =
     (if event e = ''EAT_START'' then insert (phil e) (currentlyEating (analyzeLog lg n))
      else if event e = ''EAT_END'' then currentlyEating (analyzeLog lg n) - {phil e}
      else currentlyEating (analyzeLog lg n)) \<and>
   (event e \<in> {''TRY'', ''ACQUIRE'', ''RELEASE'', ''TIMEOUT''} \<longrightarrow>
      analyzeLog (lg @ [e]) n = analyzeLog lg n)"
proof -
  have "event e \<in> {''TRY'', ''ACQUIRE'', ''RELEASE'', ''TIMEOUT''} \<longrightarrow>
          analyze_entry n (length lg) e (analyzeLog lg n) = analyzeLog lg n"
    by (auto simp: analyze_entry_def)
  then show ?thesis
    by (simp add: analyzeLog_meals analyzeLog_violations analyzeLog_sequenceErrors
        analyzeLog_eating analyzeLog_snoc entry_eating)
qed

theorem analyzeLog_spec_witness:
  "mealsPerPhilosopher (analyzeLog
     [\<lparr>runId = None, algorithm = ''a'', t = 0, phil = 0, event = ''EAT_START'', forks = [0, 1]\<rparr>,
      \<lparr>runId = None, algorithm = ''a'', t = 0, phil = 1, event = ''EAT_START'', forks = [1, 2]\<rparr>,
      \<lparr>runId = None, algorithm = ''a'', t = 1, phil = 1, event = ''EAT_END'', forks = [1, 2]\<rparr>,
      \<lparr>runId = None, algorithm = ''a'', t = 2, phil = 1, event = ''EAT_END'', forks = [1, 2]\<rparr>] 5) ! 1
     = Num 2 \<and>
   (\<exists>x \<in> set (mutualExclusionViolations (analyzeLog
     [\<lparr>runId = None, algorithm = ''a'', t = 0, phil = 0, event = ''EAT_START'', forks = [0, 1]\<rparr>,
      \<lparr>runId = None, algorithm = ''a'', t = 0, phil = 1, event = ''EAT_START'', forks = [1, 2]\<rparr>,
      \<lparr>runId = None, algorithm = ''a'', t = 1, phil = 1, event = ''EAT_END'', forks = [1, 2]\<rparr>,
      \<lparr>runId = None, algorithm = ''a'', t = 2, phil = 1, event = ''EAT_END'', forks = [1, 2]\<rparr>] 5)).
      index x = 1) \<and>
   (\<exists>x \<in> set (sequenceErrors (analyzeLog
     [\<lparr>runId = None, algorithm = ''a'', t = 0, phil = 0, event = ''EAT_START'', forks = [0, 1]\<rparr>,
      \<lparr>runId = None, algorithm = ''a'', t = 0, phil = 1, event = ''EAT_START'', forks = [1, 2]\<rparr>,
      \<lparr>runId = None, algorithm = ''a'', t = 1, phil = 1, event = ''EAT_END'', forks = [1, 2]\<rparr>,
      \<lparr>runId = None, algorithm = ''a'', t = 2, phil = 1, event = ''EAT_END'', forks = [1, 2]\<rparr>] 5)).
      index x = 3) \<and>
   analyzeLog
     ([\<lparr>runId = None, algorithm = ''a'', t = 0, phil = 0, event = ''EAT_START'', forks = [0, 1]\<rparr>,
       \<lparr>runId = None, algorithm = ''a'', t = 0, phil = 1, event = ''EAT_START'', forks = [1, 2]\<rparr>,
       \<lparr>runId = None, algorithm = ''a'', t = 1, phil = 1, event = ''EAT_END'', forks = [1, 2]\<rparr>,
       \<lparr>runId = None, algorithm = ''a'', t = 2, phil = 1, event = ''EAT_END'', forks = [1, 2]\<rparr>] @
      [\<lparr>runId = None, algorithm = ''a'', t = 3, phil = 2, event = ''TRY'', forks = [2, 3]\<rparr>]) 5 =
   analyzeLog
     [\<lparr>runId = None, algorithm = ''a'', t = 0, phil = 0, event = ''EAT_START'', forks = [0, 1]\<rparr>,
      \<lparr>runId = None, algorithm = ''a'', t = 0, phil = 1, event = ''EAT_START'', forks = [1, 2]\<rparr>,
      \<lparr>runId = None, algorithm = ''a'', t = 1, phil = 1, event = ''EAT_END'', forks = [1, 2]\<rparr>,
      \<lparr>runId = None, algorithm = ''a'', t = 2, phil = 1, event = ''EAT_END'', forks = [1, 2]\<rparr>] 5"
  using analyzeLog_spec [of 1 5
     "[\<lparr>runId = None, algorithm = ''a'', t = 0, phil = 0, event = ''EAT_START'', forks = [0, 1]\<rparr>,
       \<lparr>runId = None, algorithm = ''a'', t = 0, phil = 1, event = ''EAT_START'', forks = [1, 2]\<rparr>,
       \<lparr>runId = None, algorithm = ''a'', t = 1, phil = 1, event = ''EAT_END'', forks = [1, 2]\<rparr>,
       \<lparr>runId = None, algorithm = ''a'', t = 2, phil = 1, event = ''EAT_END'', forks = [1, 2]\<rparr>]"
     1 "\<lparr>runId = None, algorithm = ''a'', t = 3, phil = 2, event = ''TRY'', forks = [2, 3]\<rparr>"]
   analyzeLog_spec [of 1 5
     "[\<lparr>runId = None, algorithm = ''a'', t = 0, phil = 0, event = ''EAT_START'', forks = [0, 1]\<rparr>,
       \<lparr>runId = None, algorithm = ''a'', t = 0, phil = 1, event = ''EAT_START'', forks = [1, 2]\<rparr>,
       \<lparr>runId = None, algorithm = ''a'', t = 1, phil = 1, event = ''EAT_END'', forks = [1, 2]\<rparr>,
       \<lparr>runId = None, algorithm = ''a'', t = 2, phil = 1, event = ''EAT_END'', forks = [1, 2]\<rparr>]"
     3 "\<lparr>runId = None, algorithm = ''a'', t = 3, phil = 2, event = ''TRY'', forks = [2, 3]\<rparr>"]
  by (simp add: spec_meals_def spec_violation_def spec_sequence_error_def spec_eating_def
      ring_left_def ring_right_def)

subsection \<open>The naive strategy\<close>

lemma logged_fields:
  "event (logged r ev fks L) = ev" "phil (logged r ev fks L) = r" "forks (logged r ev fks L) = fks"
  by (simp_all add: logged_eq)

lemma acquire_loop_events:
  "acquire_loop r fks wt w env = (tr, res) \<Longrightarrow>
     map event (events_of tr) = (case res of None \<Rightarrow> [] | Some x \<Rightarrow> [''ACQUIRE'']) \<and>
     (\<forall>e \<in> set (events_of tr). phil e = r)"
proof (induction env arbitrary: wt w tr res)
  case Nil
  then show ?case
    by (cases w) (auto simp: acquire_loop.simps logged_fields split: if_splits)
next
  case (Cons g env)
  obtain f L where w: "w = (f, L)" by (cases w)
  show ?case
  proof (cases "state f = 0")
    case True
    with Cons.prems show ?thesis
      by (auto simp: w acquire_loop.simps logged_fields)
  next
    case False
    with Cons.prems obtain tr' where
      "acquire_loop r fks (min (wt * 2) 1000) (g (f, L)) env = (tr', res)"
      and "tr = Waited wt # tr'"
      by (cases "acquire_loop r fks (min (wt * 2) 1000) (g (f, L)) env")
         (simp add: w acquire_loop_Cons)
    with Cons.IH show ?thesis by simp
  qed
qed

lemma acquire_events:
  assumes "acquire r fks w env = (tr, Some x)"
  shows "map event (events_of tr) = [''TRY'', ''ACQUIRE''] \<and> (\<forall>e \<in> set (events_of tr). phil e = r)"
proof -
  obtain f L where w: "w = (f, L)" by (cases w)
  from assms obtain tr' where
    "acquire_loop r fks 1 (f, log r ''TRY'' fks L) env = (tr', Some x)"
    and "tr = Logged (logged r ''TRY'' fks L) # tr'"
    by (cases "acquire_loop r fks 1 (f, log r ''TRY'' fks L) env") (auto simp: acquire_def w)
  with acquire_loop_events [of r fks 1 "(f, log r ''TRY'' fks L)" env tr' "Some x"]
  show ?thesis by (simp add: logged_fields)
qed

lemma acquire_at_Next:
  assumes "acquire_at i r fks w env = Next evs w1 env1"
  shows "map event evs = [''TRY'', ''ACQUIRE''] \<and> (\<forall>e \<in> set evs. phil e = r)"
  using assms
  by (auto simp: acquire_at_def suspend_def
      dest: acquire_events split: prod.splits if_splits option.splits list.splits)

lemma suspend_Next: "suspend evs w env = Next evs' w' env' \<Longrightarrow> evs' = evs"
  by (auto simp: suspend_def split: list.splits)

lemma suspend_not_Fulfilled: "suspend evs w env \<noteq> Halt Fulfilled evs' w'"
  by (simp add: suspend_def split: list.splits)

lemma acquire_at_not_Fulfilled: "acquire_at i r fks w env \<noteq> Halt Fulfilled evs w'"
  by (auto simp: acquire_at_def suspend_not_Fulfilled split: prod.splits option.splits)

text \<open>
  The strategy that is implemented: when the promise of \<^verbatim>\<open>startNaive(count)\<close> is
  fulfilled, the call has logged exactly \<open>count\<close> turns of TRY, ACQUIRE, TRY, ACQUIRE,
  EAT\_START, EAT\_END, RELEASE, RELEASE, all of them for its own actor, whatever the
  other tasks did at each suspension.
\<close>

lemma startNaive_cycles:
  assumes "startNaive p count w env = (Fulfilled, evs, w')"
  shows "map event evs = concat (replicate count cycle) \<and> (\<forall>e \<in> set evs. phil e = id_phil p)"
  using assms
proof (induction count arbitrary: w env evs w')
  case 0
  then show ?case by simp
next
  case (Suc m)
  from Suc.prems obtain evs1 w1 env1 where
    a1: "acquire_at (f1 p) (id_phil p) [f1 p, f2 p] w env = Next evs1 w1 env1"
    by (auto simp: acquire_at_not_Fulfilled split: step.splits)
  from Suc.prems a1 obtain evs2 w2 env2 where
    a2: "acquire_at (f2 p) (id_phil p) [f1 p, f2 p] w1 env1 = Next evs2 w2 env2"
    by (auto simp: acquire_at_not_Fulfilled split: step.splits)
  from Suc.prems a1 a2 obtain evs3 w3 env3 where
    a3: "suspend [logged (id_phil p) ''EAT_START'' [f1 p, f2 p] (snd w2)]
           (fst w2, log_phil p ''EAT_START'' (snd w2)) env2 = Next evs3 w3 env3"
    by (auto simp: suspend_not_Fulfilled split: step.splits)
  define w4 where "w4 = (fst w3, log_phil p ''EAT_END'' (snd w3))"
  from Suc.prems a1 a2 a3 obtain w5 where
    a5: "release_at (f1 p) (id_phil p) [f1 p, f2 p] w4 = (Returned, w5)"
    by (auto simp: Let_def w4_def split: prod.splits completion.splits)
  from Suc.prems a1 a2 a3 a5 obtain w6 where
    a6: "release_at (f2 p) (id_phil p) [f1 p, f2 p] w5 = (Returned, w6)"
    by (auto simp: Let_def w4_def split: prod.splits completion.splits)
  from Suc.prems a1 a2 a3 a5 a6 obtain evs7 where
    a7: "startNaive p m w6 env3 = (Fulfilled, evs7, w')"
    and evs: "evs = evs1 @ evs2 @ evs3 @
        [logged (id_phil p) ''EAT_END'' [f1 p, f2 p] (snd w3),
         logged (id_phil p) ''RELEASE'' [f1 p, f2 p] (snd w4),
         logged (id_phil p) ''RELEASE'' [f1 p, f2 p] (snd w5)] @ evs7"
    by (auto simp: Let_def w4_def split: prod.splits)
  from a3 have e3: "evs3 = [logged (id_phil p) ''EAT_START'' [f1 p, f2 p] (snd w2)]"
    by (rule suspend_Next)
  from Suc.IH [OF a7] acquire_at_Next [OF a1] acquire_at_Next [OF a2]
  show ?case
    by (auto simp: evs e3 logged_fields cycle_def)
qed

text \<open>
  A run with one meal on a table of two where no other task does anything, so that each
  resumption finds the state the call left: the promise is fulfilled after one turn, both
  forks are free again, and the log holds the eight events of the turn.
\<close>

lemma startNaive_example:
  "(let p = \<lparr>id_phil = 0, f1 = 0, f2 = 1\<rparr>;
        L1 = log 0 ''ACQUIRE'' [0, 1] (log 0 ''TRY'' [0, 1] (initial_logger int));
        L2 = log 0 ''ACQUIRE'' [0, 1] (log 0 ''TRY'' [0, 1] L1);
        L3 = log 0 ''EAT_START'' [0, 1] L2;
        run = startNaive p 1 (make_forks 2, initial_logger int)
                [([\<lparr>id_fork = 0, state = 1, holder = Some 0\<rparr>, Fork 1], L1),
                 ([\<lparr>id_fork = 0, state = 1, holder = Some 0\<rparr>,
                   \<lparr>id_fork = 1, state = 1, holder = Some 0\<rparr>], L2),
                 ([\<lparr>id_fork = 0, state = 1, holder = Some 0\<rparr>,
                   \<lparr>id_fork = 1, state = 1, holder = Some 0\<rparr>], L3)]
    in fst run = Fulfilled \<and>
       map event (fst (snd run)) = cycle \<and>
       fst (snd (snd run)) = [Fork 0, Fork 1] \<and>
       map event (eventLog (snd (snd (snd run)))) = cycle \<and>
       map t (eventLog (snd (snd (snd run)))) = [1, 2, 3, 4, 5, 6, 7, 8])"
  by code_simp

subsection \<open>The strategies left to implement\<close>

text \<open>
  Claim C1, at the input where the code departs from it: actor 0 of a table of five and
  one meal. Unlike \<^verbatim>\<open>startNaive\<close>, the calls \<^verbatim>\<open>startAsym\<close>, \<^verbatim>\<open>startSimultaneous\<close> and
  \<^verbatim>\<open>startConductor\<close> are fulfilled at once and leave forks and log as they were; the log
  is empty, so the actor has logged no EAT\_START and no EAT\_END, and the analyzer counts
  no meal for it.
\<close>

theorem stub_strategies_complete_without_eating:
  "startAsym p count w = (Fulfilled, w) \<and>
   startSimultaneous p count w = (Fulfilled, w) \<and>
   startConductor p count c w = (Fulfilled, c, w) \<and>
   startAsym \<lparr>id_phil = 0, f1 = 0, f2 = 1\<rparr> 1 (make_forks 5, initial_logger clk) =
     (Fulfilled, make_forks 5, initial_logger clk) \<and>
   startSimultaneous \<lparr>id_phil = 0, f1 = 0, f2 = 1\<rparr> 1 (make_forks 5, initial_logger clk) =
     (Fulfilled, make_forks 5, initial_logger clk) \<and>
   startConductor \<lparr>id_phil = 0, f1 = 0, f2 = 1\<rparr> 1 (Conductor 4 :: nat conductor)
       (make_forks 5, initial_logger clk) =
     (Fulfilled, Conductor 4, make_forks 5, initial_logger clk) \<and>
   Philosopher 0 (make_forks 5) = Some \<lparr>id_phil = 0, f1 = 0, f2 = 1\<rparr> \<and>
   getEventLog (initial_logger clk) = [] \<and>
   mealsPerPhilosopher (analyzeLog (getEventLog (initial_logger clk)) 5) ! 0 = Num 0"
  by (simp add: startAsym_def startSimultaneous_def startConductor_def Philosopher_def
      make_forks_def getEventLog_def initial_logger_def analyzeLog_def)

text \<open>
  Claim C4, at the input where the code departs from it: \<^verbatim>\<open>startAsym\<close> with one meal,
  for the even actor 0 and for the odd actor 1 of a table of five. No fork is acquired
  in either order: every fork is still free and without holder, and the log holds no
  TRY and no ACQUIRE event.
\<close>

theorem startAsym_acquires_nothing:
  "snd (startAsym p count w) = w \<and>
   fst (snd (startAsym \<lparr>id_phil = 0, f1 = 0, f2 = 1\<rparr> 1 (make_forks 5, initial_logger clk))) =
     [Fork 0, Fork 1, Fork 2, Fork 3, Fork 4] \<and>
   eventLog (snd (snd (startAsym \<lparr>id_phil = 0, f1 = 0, f2 = 1\<rparr> 1
     (make_forks 5, initial_logger clk)))) = [] \<and>
   fst (snd (startAsym \<lparr>id_phil = 1, f1 = 1, f2 = 2\<rparr> 1 (make_forks 5, initial_logger clk))) =
     [Fork 0, Fork 1, Fork 2, Fork 3, Fork 4] \<and>
   eventLog (snd (snd (startAsym \<lparr>id_phil = 1, f1 = 1, f2 = 2\<rparr> 1
     (make_forks 5, initial_logger clk)))) = [] \<and>
   state (Fork 0) = 0 \<and> holder (Fork 0) = None \<and> state (Fork 1) = 0 \<and> holder (Fork 1) = None"
  by (simp add: startAsym_def make_forks_def initial_logger_def Fork_def
      upt_rec [of _ "numeral _"] upt_rec [of _ "Suc _"])

text \<open>
  Claim C5, at the input where the code departs from it: a conductor with one seat.
  \<^verbatim>\<open>requestSeat\<close> is fulfilled at once for a first and for a second caller, no caller
  is put on the waiting list, and \<^verbatim>\<open>leaveSeat\<close> changes nothing.
\<close>

theorem conductor_admits_beyond_capacity:
  "requestSeat (Conductor 1 :: nat conductor) = (Fulfilled, \<lparr>seats = 1, waiting = []\<rparr>) \<and>
   requestSeat (snd (requestSeat (Conductor 1 :: nat conductor))) =
     (Fulfilled, \<lparr>seats = 1, waiting = []\<rparr>) \<and>
   leaveSeat (snd (requestSeat (snd (requestSeat (Conductor 1 :: nat conductor))))) =
     \<lparr>seats = 1, waiting = []\<rparr>"
  by (simp add: requestSeat_def leaveSeat_def Conductor_def)

end
